theory Spec2Isabelle
  imports Complex_Main
begin

section \<open>The token bucket of \<^verbatim>\<open>src/app.py\<close>\<close>

text \<open>
  The rate limiter keeps one bucket per client key in the dictionary
  \<^verbatim>\<open>rate_limit_store\<close>. The token count, the clock readings of
  \<^verbatim>\<open>time.time()\<close> and the refill rate are Python floats, that is, IEEE
  doubles. A float is modelled by the rational number it denotes, and every
  arithmetic operation of the source by the exact operation followed by the
  rounding \<open>fl\<close> to the nearest double, ties going to the even significand.
  The clock reading taken on line 58 is an input of the model:
  \<^verbatim>\<open>check_rate_limit\<close> receives it as its second argument, and the dictionary
  is passed in and returned.
\<close>

subsection \<open>Double arithmetic\<close>

text \<open>Python's one-argument \<^verbatim>\<open>round\<close> on a float: the nearest integer, a tie
  going to the even neighbour. The same rounding, applied to a scaled
  significand, rounds an exact result to a double.\<close>

definition py_round :: "rat \<Rightarrow> int" where
  "py_round x =
     (let f = \<lfloor>x\<rfloor>; d = x - of_int f
      in if d < 1 / 2 then f
         else if 1 / 2 < d then f + 1
         else if even f then f else f + 1)"

text \<open>\<open>lift n a e\<close> raises the exponent \<open>e\<close> by the largest amount below
  \<open>2 ^ n\<close> that keeps \<open>2 powi e \<le> a\<close>: a binary search, one bit of the result
  per step.\<close>

fun lift :: "nat \<Rightarrow> rat \<Rightarrow> int \<Rightarrow> int" where
  "lift 0 a e = e"
| "lift (Suc n) a e =
     (if 2 powi (e + 2 ^ n) \<le> a then lift n a (e + 2 ^ n) else lift n a e)"

text \<open>The binary exponent of a magnitude \<open>a\<close>, not below the exponent
  \<open>- 1022\<close> of the smallest normal double (below it the doubles are
  subnormal and equally spaced).\<close>

definition expo :: "rat \<Rightarrow> int" where
  "expo a = lift 11 a (- 1022)"

text \<open>The spacing of the doubles around \<open>a\<close>: 53 significant bits.\<close>

definition ulp :: "rat \<Rightarrow> rat" where
  "ulp a = 2 powi (expo a - 52)"

definition fl_mag :: "rat \<Rightarrow> rat" where
  "fl_mag a = of_int (py_round (a / ulp a)) * ulp a"

text \<open>Round to nearest double, ties to even. Magnitudes of \<open>2 ^ 1024\<close> and
  more, where a double operation overflows to an infinity, are outside the
  model, and so is NaN; clock readings and token counts are far below.\<close>

definition fl :: "rat \<Rightarrow> rat" where
  "fl x = sgn x * fl_mag \<bar>x\<bar>"

subsection \<open>Configuration (lines 11-12)\<close>

definition MAX_TOKENS :: rat where
  "MAX_TOKENS = 9"

text \<open>Line 12: the true division of two integers, correctly rounded.\<close>

definition REFILL_RATE :: rat where
  "REFILL_RATE = fl (41 / 60)"

subsection \<open>The store (line 16 and lines 61-64)\<close>

record bucket =
  tokens :: rat
  last_refill :: rat

type_synonym store = "string \<rightharpoonup> bucket"

text \<open>Lines 60-66: the bucket of the key, created full and stamped with the
  current time when the key is seen for the first time.\<close>

definition lookup_bucket :: "string \<Rightarrow> rat \<Rightarrow> store \<Rightarrow> bucket" where
  "lookup_bucket user_key current_time rate_limit_store =
     (case rate_limit_store user_key of
        None \<Rightarrow> \<lparr>tokens = MAX_TOKENS, last_refill = current_time\<rparr>
      | Some bucket \<Rightarrow> bucket)"

text \<open>Line 69.\<close>

definition elapsed_of :: "bucket \<Rightarrow> rat \<Rightarrow> rat" where
  "elapsed_of bucket current_time = fl (current_time - last_refill bucket)"

text \<open>Lines 69-72: the refill, clamped at the capacity, and the new time stamp.\<close>

definition refilled :: "bucket \<Rightarrow> rat \<Rightarrow> bucket" where
  "refilled bucket current_time =
     (let elapsed = elapsed_of bucket current_time;
          refill = fl (elapsed * REFILL_RATE)
      in \<lparr>tokens = min MAX_TOKENS (fl (tokens bucket + refill)),
          last_refill = current_time\<rparr>)"

text \<open>Lines 57-80. The result is the returned pair together with the store
  after the call.\<close>

definition check_rate_limit :: "string \<Rightarrow> rat \<Rightarrow> store \<Rightarrow> (bool \<times> int) \<times> store" where
  "check_rate_limit user_key current_time rate_limit_store =
     (let bucket = refilled (lookup_bucket user_key current_time rate_limit_store) current_time
      in if 1 \<le> tokens bucket
         then ((True, 0),
               rate_limit_store(user_key \<mapsto> bucket\<lparr>tokens := fl (tokens bucket - 1)\<rparr>))
         else (let retry_after = fl (fl (1 - tokens bucket) / REFILL_RATE)
               in ((False, py_round retry_after),
                   rate_limit_store(user_key \<mapsto> bucket))))"

subsection \<open>The endpoint (lines 84-119)\<close>

text \<open>Python's \<^verbatim>\<open>str\<close> on an integer: its decimal digits, after a minus sign
  when it is negative.\<close>

fun str_nat :: "nat \<Rightarrow> string" where
  "str_nat n =
     (if n < 10 then [''0123456789'' ! n]
      else str_nat (n div 10) @ [''0123456789'' ! (n mod 10)])"

definition str_int :: "int \<Rightarrow> string" where
  "str_int i = (if i < 0 then CHR ''-'' # str_nat (nat (- i)) else str_nat (nat i))"

text \<open>What the endpoint answers: the exception of line 88, the answer of the
  handler of lines 44-53 to any other exception, the 429 response of lines
  99-109 with the text of its \<^verbatim>\<open>Retry-After\<close> header, or the body of lines
  114-119 with its \<^verbatim>\<open>sanitizedOutput\<close>.\<close>

datatype response =
    HTTPException400
  | InternalServerError500
  | JSONResponse429 string
  | Allowed string

text \<open>Lines 85-119. The request body has already passed the schema.
  \<open>client\<close> is \<^verbatim>\<open>request.client\<close>: \<open>None\<close> when the server knows no client
  address, and then line 91 raises \<^verbatim>\<open>AttributeError\<close>; otherwise its
  \<^verbatim>\<open>host\<close>. Logging is left out.\<close>

definition validate ::
  "string \<Rightarrow> string \<Rightarrow> string \<Rightarrow> string option \<Rightarrow> rat \<Rightarrow> store \<Rightarrow> response \<times> store" where
  "validate userId input category client current_time rate_limit_store =
     (if category \<noteq> ''Rate Limiting'' then (HTTPException400, rate_limit_store)
      else
        (case client of
           None \<Rightarrow> (InternalServerError500, rate_limit_store)
         | Some client_ip \<Rightarrow>
            (let user_key = userId @ '':'' @ client_ip;
                 ((allowed, retry_after), store') =
                    check_rate_limit user_key current_time rate_limit_store
             in if \<not> allowed then (JSONResponse429 (str_int retry_after), store')
                else (Allowed input, store'))))"

subsection \<open>Call sequences\<close>

text \<open>A sequence of calls, each with its key and the clock reading it takes;
  the results are collected in call order.\<close>

fun run_calls :: "(string \<times> rat) list \<Rightarrow> store \<Rightarrow> (bool \<times> int) list \<times> store" where
  "run_calls [] s = ([], s)"
| "run_calls ((k, t) # cs) s =
     (let (r, s') = check_rate_limit k t s;
          (rs, s'') = run_calls cs s'
      in (r # rs, s''))"

text \<open>The state of a bucket that the design intends at time \<open>t\<close>: a token count
  between 0 and the capacity, and a stamp that is not in the future.\<close>

definition bucket_ok :: "rat \<Rightarrow> bucket \<Rightarrow> bool" where
  "bucket_ok t b \<longleftrightarrow> 0 \<le> tokens b \<and> tokens b \<le> MAX_TOKENS \<and> last_refill b \<le> t"

section \<open>Rounding\<close>

subsection \<open>Rounding to the nearest integer, ties to even\<close>

lemma py_round_lower: "of_int (py_round x) \<le> x + 1 / 2"
  unfolding py_round_def Let_def by (simp; linarith)

lemma py_round_ge_floor: "\<lfloor>x\<rfloor> \<le> py_round x"
  by (simp add: py_round_def Let_def)

lemma py_round_le_floor: "py_round x \<le> \<lfloor>x\<rfloor> + 1"
  by (simp add: py_round_def Let_def)

lemma py_round_mono:
  assumes "x \<le> y" shows "py_round x \<le> py_round y"
proof (cases "\<lfloor>x\<rfloor> = \<lfloor>y\<rfloor>")
  case True
  with assms show ?thesis
    by (auto simp: py_round_def Let_def)
next
  case False
  with assms have "\<lfloor>x\<rfloor> < \<lfloor>y\<rfloor>"
    using floor_mono [of x y] by linarith
  then show ?thesis
    using py_round_le_floor [of x] py_round_ge_floor [of y] by linarith
qed

lemma py_round_nonneg: "0 \<le> x \<Longrightarrow> 0 \<le> py_round x"
  using py_round_ge_floor [of x] by (simp add: order_trans [of 0 "\<lfloor>x\<rfloor>"])

lemma py_round_cases:
  obtains (down) "py_round x = \<lfloor>x\<rfloor>" "x - of_int \<lfloor>x\<rfloor> < 1 / 2"
  | (up) "py_round x = \<lfloor>x\<rfloor> + 1" "1 / 2 < x - of_int \<lfloor>x\<rfloor>"
  | (tie) "x - of_int \<lfloor>x\<rfloor> = 1 / 2" "even (py_round x)"
      "py_round x = \<lfloor>x\<rfloor> \<or> py_round x = \<lfloor>x\<rfloor> + 1"
proof -
  consider "x - of_int \<lfloor>x\<rfloor> < 1 / 2" | "1 / 2 < x - of_int \<lfloor>x\<rfloor>"
    | "x - of_int \<lfloor>x\<rfloor> = 1 / 2"
    by linarith
  then show thesis
  proof cases
    case 1
    then have "py_round x = \<lfloor>x\<rfloor>" by (simp add: py_round_def Let_def)
    with 1 show thesis by (rule down [rotated])
  next
    case 2
    then have "py_round x = \<lfloor>x\<rfloor> + 1" by (simp add: py_round_def Let_def)
    with 2 show thesis by (rule up [rotated])
  next
    case 3
    then have "py_round x = (if even \<lfloor>x\<rfloor> then \<lfloor>x\<rfloor> else \<lfloor>x\<rfloor> + 1)"
      by (simp add: py_round_def Let_def)
    then have "even (py_round x)" "py_round x = \<lfloor>x\<rfloor> \<or> py_round x = \<lfloor>x\<rfloor> + 1"
      by auto
    with 3 show thesis by (rule tie)
  qed
qed

lemma py_round_nearest: "\<bar>of_int (py_round x) - x\<bar> \<le> 1 / 2"
proof -
  have "of_int \<lfloor>x\<rfloor> \<le> x" "x < of_int \<lfloor>x\<rfloor> + 1"
    by linarith+
  then show ?thesis
    by (cases x rule: py_round_cases) auto
qed

lemma py_round_tie_even:
  assumes "\<bar>of_int (py_round x) - x\<bar> = 1 / 2" shows "even (py_round x)"
proof -
  have "of_int \<lfloor>x\<rfloor> \<le> x" "x < of_int \<lfloor>x\<rfloor> + 1"
    by linarith+
  with assms show ?thesis
    by (cases x rule: py_round_cases) auto
qed

subsection \<open>The exponent of a magnitude\<close>

lemma pow2_pos: "0 < (2::rat) powi k"
  by simp

lemma pow2_mono: "k \<le> l \<Longrightarrow> (2::rat) powi k \<le> 2 powi l"
  by (rule power_int_increasing) simp_all


lemma pow2_add: "(2::rat) powi (k + l) = 2 powi k * 2 powi l"
  by (rule power_int_add) simp

lemma lift_ge: "e \<le> lift n a e"
proof (induction n arbitrary: e)
  case 0
  show ?case by simp
next
  case (Suc n)
  have "e \<le> e + 2 ^ n" by simp
  also have "\<dots> \<le> lift n a (e + 2 ^ n)" by (rule Suc.IH)
  finally show ?case using Suc.IH [of e] by simp
qed

lemma lift_less: "lift n a e < e + 2 ^ n"
proof (induction n arbitrary: e)
  case 0
  show ?case by simp
next
  case (Suc n)
  have p: "(0::int) < 2 ^ n" by simp
  show ?case
  proof (cases "2 powi (e + 2 ^ n) \<le> a")
    case True
    with Suc.IH [of "e + 2 ^ n"] show ?thesis by simp
  next
    case False
    then have "lift (Suc n) a e = lift n a e" by simp
    also have "\<dots> < e + 2 ^ n" by (rule Suc.IH)
    also have "\<dots> \<le> e + 2 ^ Suc n" by simp
    finally show ?thesis .
  qed
qed

lemma lift_lower: "lift n a e = e \<or> 2 powi (lift n a e) \<le> a"
proof (induction n arbitrary: e)
  case 0
  show ?case by simp
next
  case (Suc n)
  show ?case
  proof (cases "2 powi (e + 2 ^ n) \<le> a")
    case True
    with Suc.IH [of "e + 2 ^ n"] show ?thesis by auto
  next
    case False
    with Suc.IH [of e] show ?thesis by simp
  qed
qed

lemma lift_upper: "a < 2 powi (e + 2 ^ n) \<Longrightarrow> a < 2 powi (lift n a e + 1)"
proof (induction n arbitrary: e)
  case 0
  then show ?case by simp
next
  case (Suc n)
  show ?case
  proof (cases "2 powi (e + 2 ^ n) \<le> a")
    case True
    from Suc.prems have "a < 2 powi (e + 2 ^ n + 2 ^ n)" by (simp add: add.assoc)
    from Suc.IH [OF this] True show ?thesis by simp
  next
    case False
    then have "a < 2 powi (e + 2 ^ n)" by simp
    from Suc.IH [OF this] False show ?thesis by simp
  qed
qed

lemma lift_top: "2 powi (e + 2 ^ n) \<le> a \<Longrightarrow> lift n a e = e + 2 ^ n - 1"
proof (induction n arbitrary: e)
  case 0
  then show ?case by simp
next
  case (Suc n)
  have "(2::rat) powi (e + 2 ^ n) \<le> 2 powi (e + 2 ^ Suc n)"
    by (rule pow2_mono) simp
  with Suc.prems have c: "2 powi (e + 2 ^ n) \<le> a" by simp
  from Suc.prems have "2 powi (e + 2 ^ n + 2 ^ n) \<le> a" by (simp add: add.assoc)
  from Suc.IH [OF this] c show ?case by simp
qed

lemma lift_mono: "a \<le> b \<Longrightarrow> lift n a e \<le> lift n b e"
proof (induction n arbitrary: e)
  case 0
  show ?case by simp
next
  case (Suc n)
  show ?case
  proof (cases "2 powi (e + 2 ^ n) \<le> a")
    case True
    with Suc.prems have "2 powi (e + 2 ^ n) \<le> b" by simp
    with True Suc.IH [OF Suc.prems, of "e + 2 ^ n"] show ?thesis by simp
  next
    case False
    show ?thesis
    proof (cases "2 powi (e + 2 ^ n) \<le> b")
      case True
      have "lift n a e < e + 2 ^ n" by (rule lift_less)
      also have "\<dots> \<le> lift n b (e + 2 ^ n)" by (rule lift_ge)
      finally show ?thesis using True False by simp
    next
      case F2: False
      with False Suc.IH [OF Suc.prems, of e] show ?thesis by simp
    qed
  qed
qed

lemma expo_mono: "a \<le> b \<Longrightarrow> expo a \<le> expo b"
  unfolding expo_def by (rule lift_mono)

lemma expo_lower: "expo a = - 1022 \<or> 2 powi (expo a) \<le> a"
  unfolding expo_def by (rule lift_lower)

lemma expo_le: "expo a \<le> 1025"
  using lift_less [of 11 a "- 1022"] by (simp add: expo_def)

lemma expo_ge: "- 1022 \<le> expo a"
  unfolding expo_def by (rule lift_ge)

lemma expo_upper: "expo a < 1025 \<Longrightarrow> a < 2 powi (expo a + 1)"
proof -
  assume lt: "expo a < 1025"
  have "a < 2 powi (- 1022 + 2 ^ 11)"
  proof (rule ccontr)
    assume "\<not> a < 2 powi (- 1022 + 2 ^ 11)"
    then have "2 powi (- 1022 + 2 ^ 11) \<le> a" by simp
    then have "lift 11 a (- 1022) = - 1022 + 2 ^ 11 - 1" by (rule lift_top)
    with lt show False by (simp add: expo_def)
  qed
  then show ?thesis unfolding expo_def by (rule lift_upper)
qed

lemma ulp_pos: "0 < ulp a"
  by (simp add: ulp_def)

subsection \<open>Rounding to the nearest double\<close>

lemma py_round_of_int: "py_round (of_int n) = n"
  by (simp add: py_round_def)

lemma fl_mag_nonneg: "0 \<le> a \<Longrightarrow> 0 \<le> fl_mag a"
  unfolding fl_mag_def using ulp_pos [of a]
  by (intro mult_nonneg_nonneg) (simp_all add: py_round_nonneg)

lemma fl_mag_le_pow2:
  assumes "a < 2 powi (expo a + 1)"
  shows "fl_mag a \<le> 2 powi (expo a + 1)"
proof -
  have split: "(2::rat) powi (expo a + 1) = 2 powi 53 * ulp a"
    using pow2_add [of 53 "expo a - 52"] by (simp add: ulp_def add.commute)
  with assms ulp_pos [of a] have "a / ulp a \<le> 2 powi 53"
    by (simp add: pos_divide_le_eq)
  then have "a / ulp a \<le> of_int (2 ^ 53)"
    by simp
  then have "py_round (a / ulp a) \<le> py_round (of_int (2 ^ 53))"
    by (rule py_round_mono)
  then have "py_round (a / ulp a) \<le> 2 ^ 53"
    by (simp only: py_round_of_int)
  then have "(of_int (py_round (a / ulp a)) :: rat) \<le> of_int (2 ^ 53)"
    by (simp only: of_int_le_iff)
  then have "of_int (py_round (a / ulp a)) * ulp a \<le> of_int (2 ^ 53) * ulp a"
    using ulp_pos [of a] by (intro mult_right_mono) simp_all
  then show ?thesis
    by (simp add: fl_mag_def split)
qed

lemma fl_mag_ge_pow2:
  assumes "2 powi (expo a) \<le> a"
  shows "2 powi (expo a) \<le> fl_mag a"
proof -
  have split: "(2::rat) powi (expo a) = 2 powi 52 * ulp a"
    using pow2_add [of 52 "expo a - 52"] by (simp add: ulp_def)
  with assms ulp_pos [of a] have "2 powi 52 \<le> a / ulp a"
    by (simp add: pos_le_divide_eq)
  then have "of_int (2 ^ 52) \<le> a / ulp a"
    by simp
  then have "py_round (of_int (2 ^ 52)) \<le> py_round (a / ulp a)"
    by (rule py_round_mono)
  then have "2 ^ 52 \<le> py_round (a / ulp a)"
    by (simp only: py_round_of_int)
  then have "(of_int (2 ^ 52) :: rat) \<le> of_int (py_round (a / ulp a))"
    by (simp only: of_int_le_iff)
  then have "of_int (2 ^ 52) * ulp a \<le> of_int (py_round (a / ulp a)) * ulp a"
    using ulp_pos [of a] by (intro mult_right_mono) simp_all
  then show ?thesis
    by (simp add: fl_mag_def split)
qed

lemma fl_mag_mono:
  assumes "a \<le> b"
  shows "fl_mag a \<le> fl_mag b"
proof (cases "expo a = expo b")
  case True
  then have u: "ulp a = ulp b" by (simp add: ulp_def)
  from assms ulp_pos [of b] have "a / ulp b \<le> b / ulp b"
    by (simp add: divide_right_mono)
  then have "py_round (a / ulp b) \<le> py_round (b / ulp b)"
    by (rule py_round_mono)
  then have "(of_int (py_round (a / ulp b)) :: rat) \<le> of_int (py_round (b / ulp b))"
    by (simp only: of_int_le_iff)
  then show ?thesis
    unfolding fl_mag_def u using ulp_pos [of b] by (intro mult_right_mono) simp_all
next
  case False
  with expo_mono [OF assms] have lt: "expo a < expo b" by simp
  with expo_le [of b] have "expo a < 1025" by simp
  then have "a < 2 powi (expo a + 1)" by (rule expo_upper)
  then have "fl_mag a \<le> 2 powi (expo a + 1)" by (rule fl_mag_le_pow2)
  also have "\<dots> \<le> 2 powi (expo b)" using lt by (intro pow2_mono) simp
  also have "\<dots> \<le> fl_mag b"
  proof (rule fl_mag_ge_pow2)
    from lt expo_ge [of a] have "expo b \<noteq> - 1022" by simp
    with expo_lower [of b] show "2 powi (expo b) \<le> b" by simp
  qed
  finally show ?thesis .
qed

lemma fl_0: "fl 0 = 0"
  by (simp add: fl_def)

lemma fl_minus: "fl (- x) = - fl x"
  by (simp add: fl_def sgn_minus)

lemma fl_nonneg: "0 \<le> x \<Longrightarrow> 0 \<le> fl x"
  by (cases "x = 0") (simp_all add: fl_def fl_mag_nonneg)

lemma fl_nonpos: "x \<le> 0 \<Longrightarrow> fl x \<le> 0"
  using fl_nonneg [of "- x"] by (simp add: fl_minus)

lemma fl_mono:
  assumes "x \<le> y" shows "fl x \<le> fl y"
proof -
  consider "0 \<le> x" | "x < 0" "0 \<le> y" | "y < 0" by linarith
  then show ?thesis
  proof cases
    case 1
    with assms have "0 \<le> y" by simp
    moreover have "fl_mag x \<le> fl_mag y" using assms by (rule fl_mag_mono)
    ultimately show ?thesis
      using 1 assms by (cases "x = 0"; cases "y = 0") (simp_all add: fl_def fl_mag_nonneg)
  next
    case 2
    then have "fl x \<le> 0" "0 \<le> fl y" by (simp_all add: fl_nonneg fl_nonpos)
    then show ?thesis by simp
  next
    case 3
    with assms have "x < 0" by simp
    have "fl_mag (- y) \<le> fl_mag (- x)" using assms by (intro fl_mag_mono) simp
    with 3 \<open>x < 0\<close> show ?thesis by (simp add: fl_def)
  qed
qed






subsection \<open>Evaluating double arithmetic on numerals\<close>

lemma floor_rat_numeral: "\<lfloor>numeral a / numeral b :: rat\<rfloor> = numeral a div numeral b"
  by (metis floor_divide_of_int_eq of_int_numeral)

lemma floor_rat_one_numeral: "\<lfloor>1 / numeral b :: rat\<rfloor> = 1 div numeral b"
  by (metis floor_divide_of_int_eq of_int_numeral of_int_1)

lemma lift_numeral:
  "lift (numeral k) a e =
     (if 2 powi (e + 2 ^ pred_numeral k) \<le> a
      then lift (pred_numeral k) a (e + 2 ^ pred_numeral k)
      else lift (pred_numeral k) a e)"
  by (simp add: numeral_eq_Suc)

lemma lift_1: "lift 1 a e = (if 2 powi (e + 1) \<le> a then e + 1 else e)"
  by simp

lemmas fl_eval = fl_def fl_mag_def ulp_def expo_def py_round_def Let_def
  floor_rat_numeral floor_rat_one_numeral lift_numeral lift_1

lemma REFILL_RATE_val: "REFILL_RATE = 3077459745369839 / 4503599627370496"
  by (simp add: REFILL_RATE_def fl_eval)

lemma REFILL_RATE_pos: "0 < REFILL_RATE"
  by (simp add: REFILL_RATE_val)

lemma fl_digits:
  "fl 1 = 1" "fl 2 = 2" "fl 3 = 3" "fl 4 = 4" "fl 5 = 5" "fl 6 = 6" "fl 7 = 7" "fl 8 = 8" "fl 9 = 9"
  by (simp_all add: fl_eval)

section \<open>Single calls\<close>

lemma check_admitted_iff:
  "fst (fst (check_rate_limit k t s)) \<longleftrightarrow> 1 \<le> tokens (refilled (lookup_bucket k t s) t)"
  by (simp add: check_rate_limit_def Let_def)

lemma check_store_other:
  "k' \<noteq> k \<Longrightarrow> snd (check_rate_limit k t s) k' = s k'"
  by (simp add: check_rate_limit_def Let_def)

lemma check_store_admitted:
  "1 \<le> tokens (refilled (lookup_bucket k t s) t) \<Longrightarrow>
   snd (check_rate_limit k t s) k =
     Some \<lparr>tokens = fl (tokens (refilled (lookup_bucket k t s) t) - 1), last_refill = t\<rparr>"
  by (simp add: check_rate_limit_def Let_def refilled_def)

lemma check_store_denied:
  "\<not> 1 \<le> tokens (refilled (lookup_bucket k t s) t) \<Longrightarrow>
   snd (check_rate_limit k t s) k = Some (refilled (lookup_bucket k t s) t)"
  by (simp add: check_rate_limit_def Let_def)

lemma check_retry_denied:
  "\<not> 1 \<le> tokens (refilled (lookup_bucket k t s) t) \<Longrightarrow>
   fst (check_rate_limit k t s) =
     (False, py_round (fl (fl (1 - tokens (refilled (lookup_bucket k t s) t)) / REFILL_RATE)))"
  by (simp add: check_rate_limit_def Let_def)

lemma tokens_refilled:
  "tokens (refilled b t) =
     min MAX_TOKENS (fl (tokens b + fl (fl (t - last_refill b) * REFILL_RATE)))"
  by (simp add: refilled_def elapsed_of_def Let_def)

lemma last_refill_refilled: "last_refill (refilled b t) = t"
  by (simp add: refilled_def Let_def)

lemma tokens_refilled_le: "tokens (refilled b t) \<le> MAX_TOKENS"
  by (simp add: tokens_refilled)

lemma refill_nonneg:
  assumes "l \<le> t" shows "0 \<le> fl (fl (t - l) * REFILL_RATE)"
proof -
  from assms have "0 \<le> fl (t - l)" by (intro fl_nonneg) simp
  then have "0 \<le> fl (t - l) * REFILL_RATE"
    using REFILL_RATE_pos by (intro mult_nonneg_nonneg) simp_all
  then show ?thesis by (rule fl_nonneg)
qed

lemma refill_mono:
  assumes "t1 \<le> t2"
  shows "fl (fl (t1 - l) * REFILL_RATE) \<le> fl (fl (t2 - l) * REFILL_RATE)"
proof -
  from assms have "fl (t1 - l) \<le> fl (t2 - l)" by (intro fl_mono) simp
  then have "fl (t1 - l) * REFILL_RATE \<le> fl (t2 - l) * REFILL_RATE"
    using REFILL_RATE_pos by (intro mult_right_mono) simp_all
  then show ?thesis by (rule fl_mono)
qed

lemma tokens_refilled_nonneg:
  assumes "0 \<le> tokens b" "last_refill b \<le> t"
  shows "0 \<le> tokens (refilled b t)"
proof -
  have "0 \<le> tokens b + fl (fl (t - last_refill b) * REFILL_RATE)"
    using assms(1) refill_nonneg [OF assms(2)] by simp
  then have "0 \<le> fl (tokens b + fl (fl (t - last_refill b) * REFILL_RATE))"
    by (rule fl_nonneg)
  then show ?thesis by (simp add: tokens_refilled MAX_TOKENS_def)
qed

lemma tokens_refilled_mono:
  assumes "t1 \<le> t2"
  shows "tokens (refilled b t1) \<le> tokens (refilled b t2)"
proof -
  have "fl (tokens b + fl (fl (t1 - last_refill b) * REFILL_RATE))
      \<le> fl (tokens b + fl (fl (t2 - last_refill b) * REFILL_RATE))"
    using refill_mono [OF assms, of "last_refill b"] by (intro fl_mono) simp
  then show ?thesis
    by (simp add: tokens_refilled min_le_iff_disj)
qed

lemma decrement_range:
  assumes "1 \<le> x" "x \<le> MAX_TOKENS"
  shows "0 \<le> fl (x - 1)" "fl (x - 1) \<le> MAX_TOKENS"
proof -
  from assms(1) show "0 \<le> fl (x - 1)" by (intro fl_nonneg) simp
  from assms(2) have "fl (x - 1) \<le> fl 8" by (intro fl_mono) (simp add: MAX_TOKENS_def)
  then show "fl (x - 1) \<le> MAX_TOKENS" by (simp add: fl_digits MAX_TOKENS_def)
qed

lemma retry_arg_nonneg:
  assumes "x < 1" shows "0 \<le> fl (fl (1 - x) / REFILL_RATE)"
proof -
  from assms have "0 \<le> fl (1 - x)" by (intro fl_nonneg) simp
  then have "0 \<le> fl (1 - x) / REFILL_RATE"
    using REFILL_RATE_pos by simp
  then show ?thesis by (rule fl_nonneg)
qed

lemma retry_arg_antimono:
  assumes "x \<le> y"
  shows "fl (fl (1 - y) / REFILL_RATE) \<le> fl (fl (1 - x) / REFILL_RATE)"
proof -
  from assms have "fl (1 - y) \<le> fl (1 - x)" by (intro fl_mono) simp
  then have "fl (1 - y) / REFILL_RATE \<le> fl (1 - x) / REFILL_RATE"
    using REFILL_RATE_pos by (simp add: divide_right_mono)
  then show ?thesis by (rule fl_mono)
qed

subsection \<open>Calls at the instant of the stamp\<close>

lemma refilled_same_instant:
  assumes "tokens b \<le> MAX_TOKENS" "last_refill b = t" "fl (tokens b) = tokens b"
  shows "refilled b t = b"
  using assms by (simp add: refilled_def elapsed_of_def Let_def fl_0)

lemma check_same_instant_admit:
  assumes "s k = Some \<lparr>tokens = n, last_refill = t\<rparr>" "1 \<le> n" "n \<le> MAX_TOKENS"
    and "fl n = n" "fl (n - 1) = m"
  shows "check_rate_limit k t s = ((True, 0), s(k \<mapsto> \<lparr>tokens = m, last_refill = t\<rparr>))"
  using assms by (simp add: check_rate_limit_def lookup_bucket_def refilled_same_instant)

lemma check_same_instant_deny:
  assumes "s k = Some \<lparr>tokens = 0, last_refill = t\<rparr>"
  shows "check_rate_limit k t s = ((False, 1), s(k \<mapsto> \<lparr>tokens = 0, last_refill = t\<rparr>))"
proof -
  have "py_round (fl (fl 1 / REFILL_RATE)) = 1"
    by (simp add: REFILL_RATE_val fl_eval)
  with assms show ?thesis
    by (simp add: check_rate_limit_def lookup_bucket_def refilled_same_instant MAX_TOKENS_def fl_0)
qed

lemma check_first_full:
  assumes "s k = None \<or> (\<exists>b. s k = Some b \<and> tokens b = MAX_TOKENS \<and> last_refill b \<le> t)"
  shows "check_rate_limit k t s = ((True, 0), s(k \<mapsto> \<lparr>tokens = 8, last_refill = t\<rparr>))"
proof -
  have "tokens (lookup_bucket k t s) = 9" "last_refill (lookup_bucket k t s) \<le> t"
    using assms by (auto simp: lookup_bucket_def MAX_TOKENS_def)
  then have "fl 9 \<le> fl (tokens (lookup_bucket k t s)
      + fl (fl (t - last_refill (lookup_bucket k t s)) * REFILL_RATE))"
    using refill_nonneg [of "last_refill (lookup_bucket k t s)" t] by (intro fl_mono) simp
  then have "tokens (refilled (lookup_bucket k t s) t) = 9"
    by (simp add: tokens_refilled MAX_TOKENS_def fl_digits)
  then have "refilled (lookup_bucket k t s) t = \<lparr>tokens = 9, last_refill = t\<rparr>"
    using last_refill_refilled [of "lookup_bucket k t s" t]
    by (cases "refilled (lookup_bucket k t s) t") simp
  then show ?thesis
    by (simp add: check_rate_limit_def Let_def fl_digits)
qed

lemma burst_from_8:
  assumes "s k = Some \<lparr>tokens = 8, last_refill = t\<rparr>"
  shows "fst (run_calls (replicate 9 (k, t)) s) = replicate 8 (True, 0) @ [(False, 1)]"
  using assms
  by (simp add: numeral_eq_Suc check_same_instant_admit check_same_instant_deny MAX_TOKENS_def
      fl_digits fl_0)

subsection \<open>Equations for evaluating calls\<close>

lemma check_rate_limit_eval:
  "check_rate_limit k t s =
     (if 1 \<le> tokens (refilled (lookup_bucket k t s) t)
      then ((True, 0),
            s(k \<mapsto> \<lparr>tokens = fl (tokens (refilled (lookup_bucket k t s) t) - 1),
                    last_refill = t\<rparr>))
      else ((False,
             py_round (fl (fl (1 - tokens (refilled (lookup_bucket k t s) t)) / REFILL_RATE))),
            s(k \<mapsto> \<lparr>tokens = tokens (refilled (lookup_bucket k t s) t),
                    last_refill = t\<rparr>)))"
  by (simp add: check_rate_limit_def Let_def refilled_def)

lemma fst_run_calls_Cons:
  "fst (run_calls (c # cs) s) =
     fst (check_rate_limit (fst c) (snd c) s)
       # fst (run_calls cs (snd (check_rate_limit (fst c) (snd c) s)))"
  by (cases c) (simp add: split_beta Let_def)

lemma snd_run_calls_Cons:
  "snd (run_calls (c # cs) s) = snd (run_calls cs (snd (check_rate_limit (fst c) (snd c) s)))"
  by (cases c) (simp add: split_beta Let_def)

lemma run_calls_Nil: "fst (run_calls [] s) = []" "snd (run_calls [] s) = s"
  by simp_all

lemmas run_eval = check_rate_limit_eval lookup_bucket_def tokens_refilled
  MAX_TOKENS_def REFILL_RATE_val fl_eval

subsection \<open>Denied calls\<close>

lemma denied_key_present:
  assumes "\<not> fst (fst (check_rate_limit k t s))"
  shows "\<exists>b. s k = Some b \<and> (\<forall>t'. lookup_bucket k t' s = b)"
proof (cases "s k")
  case None
  then have "check_rate_limit k t s = ((True, 0), s(k \<mapsto> \<lparr>tokens = 8, last_refill = t\<rparr>))"
    by (intro check_first_full) simp
  with assms show ?thesis
    by simp
next
  case (Some b)
  then show ?thesis
    by (simp add: lookup_bucket_def)
qed

lemma retry_denied:
  assumes "\<not> fst (fst (check_rate_limit k t s))"
  shows "snd (fst (check_rate_limit k t s)) =
         py_round (fl (fl (1 - tokens (refilled (lookup_bucket k t s) t)) / REFILL_RATE))"
  using assms check_retry_denied [of k t s] by (simp add: check_admitted_iff)

lemma py_round_zero_iff:
  assumes "0 \<le> y" shows "py_round y = 0 \<longleftrightarrow> y \<le> 1 / 2"
proof -
  have fl: "of_int \<lfloor>y\<rfloor> \<le> y" "y < of_int \<lfloor>y\<rfloor> + 1" "0 \<le> \<lfloor>y\<rfloor>"
    using assms by (linarith, linarith, simp)
  show ?thesis
  proof (cases y rule: py_round_cases)
    case down
    show ?thesis
    proof
      assume "py_round y = 0"
      with down have "\<lfloor>y\<rfloor> = 0" by simp
      with down(2) show "y \<le> 1 / 2" by simp
    next
      assume "y \<le> 1 / 2"
      with assms have "\<lfloor>y\<rfloor> = 0" by (simp add: floor_eq_iff)
      with down(1) show "py_round y = 0" by simp
    qed
  next
    case up
    have "(0::rat) \<le> of_int \<lfloor>y\<rfloor>"
      using fl(3) by simp
    with up(2) have "\<not> y \<le> 1 / 2" by linarith
    moreover from up(1) fl(3) have "py_round y \<noteq> 0" by linarith
    ultimately show ?thesis by simp
  next
    case tie
    show ?thesis
    proof
      assume "py_round y = 0"
      with tie(3) fl(3) have "\<lfloor>y\<rfloor> = 0" by linarith
      with tie(1) show "y \<le> 1 / 2" by simp
    next
      assume "y \<le> 1 / 2"
      with assms have "\<lfloor>y\<rfloor> = 0" by (simp add: floor_eq_iff)
      with tie(2,3) show "py_round y = 0" by auto
    qed
  qed
qed

lemma retry_zero_iff:
  assumes "x < 1"
  shows "py_round (fl (fl (1 - x) / REFILL_RATE)) = 0 \<longleftrightarrow> fl (fl (1 - x) / REFILL_RATE) \<le> 1 / 2"
  using assms by (intro py_round_zero_iff retry_arg_nonneg)

lemma retry_at_threshold: "fl (fl (1 - 5929739509371153 / 9007199254740992) / REFILL_RATE) = 1 / 2"
  by (simp add: REFILL_RATE_val fl_eval)

lemma validate_denied:
  assumes "\<not> fst (fst (check_rate_limit (userId @ '':'' @ client_ip) t s))"
  shows "fst (validate userId input ''Rate Limiting'' (Some client_ip) t s) =
         JSONResponse429 (str_int (snd (fst (check_rate_limit (userId @ '':'' @ client_ip) t s))))"
  using assms by (simp add: validate_def Let_def split_beta)

lemma tokens_one_second: "tokens (refilled (lookup_bucket ''u:1'' 101 [''u:1'' \<mapsto> \<lparr>tokens = 0, last_refill = 100\<rparr>]) 101) = 3077459745369839 / 4503599627370496"
  by (simp add: run_eval)

lemma tokens_same_instant: "tokens (refilled (lookup_bucket ''u:1'' 100 [''u:1'' \<mapsto> \<lparr>tokens = 0, last_refill = 100\<rparr>]) 100) = 0"
  by (simp add: run_eval)

lemma refill_one_second:
  "min MAX_TOKENS (fl (0 + fl (fl (101 - 100) * REFILL_RATE))) = 3077459745369839 / 4503599627370496"
  by (simp add: MAX_TOKENS_def REFILL_RATE_val fl_eval)

lemma retry_one_second: "py_round (fl (fl (1 - 3077459745369839 / 4503599627370496) / REFILL_RATE)) = 0"
  by (simp add: REFILL_RATE_val fl_eval)

lemma retry_same_instant: "py_round (fl (fl (1 - 0) / REFILL_RATE)) = 1"
  by (simp add: REFILL_RATE_val fl_eval)

lemma denied_one_second: "\<not> fst (fst (check_rate_limit ''u:1'' 101 [''u:1'' \<mapsto> \<lparr>tokens = 0, last_refill = 100\<rparr>]))"
  by (simp add: check_admitted_iff tokens_one_second)

lemma denied_same_instant: "\<not> fst (fst (check_rate_limit ''u:1'' 100 [''u:1'' \<mapsto> \<lparr>tokens = 0, last_refill = 100\<rparr>]))"
  by (simp add: check_admitted_iff tokens_same_instant)

subsection \<open>Call sequences under a clock that does not go back\<close>

lemma bucket_ok_later: "bucket_ok t b \<Longrightarrow> t \<le> t' \<Longrightarrow> bucket_ok t' b"
  by (simp add: bucket_ok_def)

lemma lookup_bucket_ok:
  assumes "\<forall>k b. s k = Some b \<longrightarrow> bucket_ok t b" "t \<le> t'"
  shows "bucket_ok t' (lookup_bucket k t' s)"
proof (cases "s k")
  case None
  then show ?thesis
    by (simp add: lookup_bucket_def bucket_ok_def MAX_TOKENS_def)
next
  case (Some b)
  with assms(1) have "bucket_ok t b" by blast
  with assms(2) Some show ?thesis
    by (simp add: lookup_bucket_def bucket_ok_later)
qed

lemma check_bucket_ok:
  assumes "bucket_ok t (lookup_bucket k t s)"
    and "snd (check_rate_limit k t s) k = Some b'"
  shows "bucket_ok t b'"
proof (cases "1 \<le> tokens (refilled (lookup_bucket k t s) t)")
  case True
  with assms(2)
  have "b' = \<lparr>tokens = fl (tokens (refilled (lookup_bucket k t s) t) - 1), last_refill = t\<rparr>"
    by (simp add: check_store_admitted)
  with decrement_range [OF True tokens_refilled_le] show ?thesis
    by (simp add: bucket_ok_def)
next
  case False
  with assms(2) have "b' = refilled (lookup_bucket k t s) t"
    by (simp add: check_store_denied)
  with assms(1) tokens_refilled_le [of "lookup_bucket k t s" t]
    tokens_refilled_nonneg [of "lookup_bucket k t s" t]
  show ?thesis
    by (simp add: bucket_ok_def last_refill_refilled)
qed

lemma check_preserves_ok:
  assumes "\<forall>k b. s k = Some b \<longrightarrow> bucket_ok t b" "t \<le> t'"
  shows "\<forall>k' b. snd (check_rate_limit k t' s) k' = Some b \<longrightarrow> bucket_ok t' b"
proof (intro allI impI)
  fix k' b assume st: "snd (check_rate_limit k t' s) k' = Some b"
  show "bucket_ok t' b"
  proof (cases "k' = k")
    case True
    with st lookup_bucket_ok [OF assms, of k] show ?thesis
      by (auto intro: check_bucket_ok)
  next
    case False
    with st have "s k' = Some b" by (simp add: check_store_other)
    with assms show ?thesis by (auto intro: bucket_ok_later)
  qed
qed

lemma snd_run_calls_snoc:
  "snd (run_calls (cs @ [c]) s) = snd (check_rate_limit (fst c) (snd c) (snd (run_calls cs s)))"
  by (induction cs arbitrary: s) (simp_all add: snd_run_calls_Cons split_beta)

lemma run_preserves_ok:
  assumes "\<forall>k b. s k = Some b \<longrightarrow> bucket_ok t b" "sorted (t # map snd cs)"
  shows "\<forall>k b. snd (run_calls cs s) k = Some b \<longrightarrow> bucket_ok (last (t # map snd cs)) b"
  using assms
proof (induction cs arbitrary: s t)
  case Nil
  then show ?case by simp
next
  case (Cons c cs)
  from Cons.prems(2) have le: "t \<le> snd c" and srt: "sorted (snd c # map snd cs)"
    by simp_all
  have "\<forall>k b. snd (check_rate_limit (fst c) (snd c) s) k = Some b \<longrightarrow> bucket_ok (snd c) b"
    using Cons.prems(1) le by (rule check_preserves_ok)
  from Cons.IH [OF this srt] show ?case
    by (simp add: snd_run_calls_Cons)
qed

lemma run_from_empty_ok:
  assumes "sorted (map snd cs)"
  shows "\<forall>k b. snd (run_calls cs Map.empty) k = Some b \<longrightarrow> bucket_ok (last (0 # map snd cs)) b"
proof (cases cs)
  case Nil
  then show ?thesis by simp
next
  case (Cons c cs')
  have "\<forall>k b. Map.empty k = Some b \<longrightarrow> bucket_ok (snd c) b" by simp
  moreover have "sorted (snd c # map snd cs)" using assms Cons by simp
  ultimately have "\<forall>k b. snd (run_calls cs Map.empty) k = Some b
      \<longrightarrow> bucket_ok (last (snd c # map snd cs)) b"
    by (rule run_preserves_ok)
  with Cons show ?thesis by simp
qed

lemma sorted_prefix: "sorted (map snd cs) \<Longrightarrow> sorted (map snd (take n cs))"
  unfolding take_map [symmetric] by (rule sorted_wrt_take)

text \<open>The upper bound needs nothing of the clock.\<close>

lemma check_preserves_upper:
  assumes "\<forall>k b. s k = Some b \<longrightarrow> tokens b \<le> MAX_TOKENS"
  shows "\<forall>k' b. snd (check_rate_limit k t s) k' = Some b \<longrightarrow> tokens b \<le> MAX_TOKENS"
proof (intro allI impI)
  fix k' b assume st: "snd (check_rate_limit k t s) k' = Some b"
  show "tokens b \<le> MAX_TOKENS"
  proof (cases "k' = k")
    case True
    show ?thesis
    proof (cases "1 \<le> tokens (refilled (lookup_bucket k t s) t)")
      case adm: True
      with st True
      have "b = \<lparr>tokens = fl (tokens (refilled (lookup_bucket k t s) t) - 1), last_refill = t\<rparr>"
        by (simp add: check_store_admitted)
      with decrement_range(2) [OF adm tokens_refilled_le] show ?thesis by simp
    next
      case False
      with st True have "b = refilled (lookup_bucket k t s) t"
        by (simp add: check_store_denied)
      then show ?thesis by (simp add: tokens_refilled_le)
    qed
  next
    case False
    with st assms show ?thesis by (simp add: check_store_other)
  qed
qed

lemma run_preserves_upper:
  assumes "\<forall>k b. s k = Some b \<longrightarrow> tokens b \<le> MAX_TOKENS"
  shows "\<forall>k b. snd (run_calls cs s) k = Some b \<longrightarrow> tokens b \<le> MAX_TOKENS"
  using assms
proof (induction cs arbitrary: s)
  case Nil
  then show ?case by simp
next
  case (Cons c cs)
  from Cons.IH [OF check_preserves_upper [OF Cons.prems]] show ?case
    by (simp add: snd_run_calls_Cons)
qed

lemma sorted_take_le_nth:
  assumes "sorted xs" "n < length xs" "0 < n"
  shows "last (take n xs) \<le> xs ! n"
proof -
  have "take n xs \<noteq> []"
    using assms by auto
  then have "last (take n xs) = take n xs ! (length (take n xs) - 1)"
    by (rule last_conv_nth)
  also have "\<dots> = xs ! (n - 1)"
    using assms by simp
  finally have "last (take n xs) = xs ! (n - 1)" .
  also have "\<dots> \<le> xs ! n"
    using assms by (simp add: sorted_iff_nth_mono)
  finally show ?thesis .
qed

section \<open>Burst capacity\<close>

text \<open>
  Claim C1. A key whose bucket is fresh and full (the key is new, or its bucket
  holds \<^verbatim>\<open>MAX_TOKENS = 9\<close> tokens and was stamped no later than the instant
  of the calls) is admitted by nine consecutive calls made at one instant, and the
  tenth call at that instant is denied with a retry time of 1 second, which is
  greater than 0.
\<close>

theorem capacity_burst:
  assumes "s k = None \<or> (\<exists>b. s k = Some b \<and> tokens b = MAX_TOKENS \<and> last_refill b \<le> t)"
  shows "MAX_TOKENS = 9 \<and>
         fst (run_calls (replicate 10 (k, t)) s) = replicate 9 (True, 0) @ [(False, 1)]"
proof -
  have "run_calls (replicate 10 (k, t)) s =
        (let (r, s') = check_rate_limit k t s;
             (rs, s'') = run_calls (replicate 9 (k, t)) s'
         in (r # rs, s''))"
    by (simp add: numeral_eq_Suc)
  moreover have "check_rate_limit k t s =
      ((True, 0), s(k \<mapsto> \<lparr>tokens = 8, last_refill = t\<rparr>))"
    using assms by (rule check_first_full)
  ultimately show ?thesis
    using burst_from_8 [of "s(k \<mapsto> \<lparr>tokens = 8, last_refill = t\<rparr>)" k t]
    by (simp add: split_beta numeral_eq_Suc MAX_TOKENS_def)
qed

theorem capacity_burst_witness:
  "fst (run_calls (replicate 10 (''alice:10.0.0.1'', 1700000000)) Map.empty)
     = replicate 9 (True, 0) @ [(False, 1)]"
  using capacity_burst [of Map.empty "''alice:10.0.0.1''" 1700000000] by simp

section \<open>Range of the token count\<close>

text \<open>
  Claim C3, amended. Starting from the empty store, after every call of a
  sequence whose clock readings never decrease, every bucket holds between 0
  and \<^verbatim>\<open>MAX_TOKENS\<close> tokens. The upper bound holds after every call
  whatever the clock readings are. A denied call stores exactly the refilled
  bucket: nothing is subtracted from it.
\<close>

theorem tokens_range_amended:
  "(sorted (map snd calls) \<longrightarrow>
      (\<forall>n k b. snd (run_calls (take n calls) Map.empty) k = Some b
          \<longrightarrow> 0 \<le> tokens b \<and> tokens b \<le> MAX_TOKENS))
   \<and> (\<forall>n k b. snd (run_calls (take n calls) Map.empty) k = Some b
          \<longrightarrow> tokens b \<le> MAX_TOKENS)
   \<and> (\<not> fst (fst (check_rate_limit k' t s)) \<longrightarrow>
          snd (check_rate_limit k' t s) k' = Some (refilled (lookup_bucket k' t s) t))"
proof (intro conjI impI allI)
  fix n k b
  assume "sorted (map snd calls)"
  then have "sorted (map snd (take n calls))"
    by (rule sorted_prefix)
  then have "\<forall>k b. snd (run_calls (take n calls) Map.empty) k = Some b
      \<longrightarrow> bucket_ok (last (0 # map snd (take n calls))) b"
    by (rule run_from_empty_ok)
  moreover assume "snd (run_calls (take n calls) Map.empty) k = Some b"
  ultimately have "bucket_ok (last (0 # map snd (take n calls))) b"
    by blast
  then show "0 \<le> tokens b" "tokens b \<le> MAX_TOKENS"
    by (simp_all add: bucket_ok_def)
next
  fix n k b
  have "\<forall>k b. Map.empty k = Some b \<longrightarrow> tokens b \<le> MAX_TOKENS"
    by simp
  then have "\<forall>k b. snd (run_calls (take n calls) Map.empty) k = Some b
      \<longrightarrow> tokens b \<le> MAX_TOKENS"
    by (rule run_preserves_upper)
  moreover assume "snd (run_calls (take n calls) Map.empty) k = Some b"
  ultimately show "tokens b \<le> MAX_TOKENS"
    by blast
next
  assume "\<not> fst (fst (check_rate_limit k' t s))"
  then show "snd (check_rate_limit k' t s) k' = Some (refilled (lookup_bucket k' t s) t)"
    by (simp add: check_admitted_iff check_store_denied)
qed

theorem tokens_range_amended_witness:
  "sorted (map snd [(''u:1'', 100 :: rat), (''u:1'', 100), (''v:2'', 101)])
   \<and> snd (run_calls (take 2 [(''u:1'', 100), (''u:1'', 100), (''v:2'', 101)]) Map.empty) ''u:1''
       = Some \<lparr>tokens = 7, last_refill = 100\<rparr>
   \<and> 0 \<le> tokens \<lparr>tokens = 7, last_refill = 100\<rparr>
   \<and> tokens \<lparr>tokens = 7, last_refill = 100\<rparr> \<le> MAX_TOKENS
   \<and> \<not> fst (fst (check_rate_limit ''u:1'' 101 [''u:1'' \<mapsto> \<lparr>tokens = 0, last_refill = 100\<rparr>]))
   \<and> snd (check_rate_limit ''u:1'' 101 [''u:1'' \<mapsto> \<lparr>tokens = 0, last_refill = 100\<rparr>]) ''u:1''
       = Some (refilled (lookup_bucket ''u:1'' 101 [''u:1'' \<mapsto> \<lparr>tokens = 0, last_refill = 100\<rparr>]) 101)"
proof -
  have a: "sorted (map snd [(''u:1'', 100 :: rat), (''u:1'', 100), (''v:2'', 101)])"
    by simp
  have b: "snd (run_calls (take 2 [(''u:1'', 100), (''u:1'', 100), (''v:2'', 101)]) Map.empty) ''u:1''
       = Some \<lparr>tokens = 7, last_refill = 100\<rparr>"
    by (simp only: take_Cons_numeral take_0 pred_numeral_simps snd_run_calls_Cons
          run_calls_Nil fst_conv snd_conv)
       (simp add: run_eval)
  have d: "\<not> fst (fst (check_rate_limit ''u:1'' 101 [''u:1'' \<mapsto> \<lparr>tokens = 0, last_refill = 100\<rparr>]))"
    by (simp add: check_admitted_iff run_eval)
  from a b d
    tokens_range_amended [of "[(''u:1'', 100), (''u:1'', 100), (''v:2'', 101)]" "''u:1''" 101 "[''u:1'' \<mapsto> \<lparr>tokens = 0, last_refill = 100\<rparr>]"]
  show ?thesis
    by blast
qed

text \<open>The claim as first stated fails when the clock reading of a call is
  earlier than the stamp of the bucket: the negative refill is added without a
  lower clamp, and the bucket is left with a negative token count.\<close>

theorem tokens_range_counterexample:
  "snd (run_calls [(''u:1'', 1700000100), (''u:1'', 1700000000)] Map.empty) ''u:1''
     = Some \<lparr>tokens = - 4245580898719061 / 70368744177664, last_refill = 1700000000\<rparr>
   \<and> (- 4245580898719061 / 70368744177664 :: rat) < 0"
  by (simp only: snd_run_calls_Cons run_calls_Nil fst_conv snd_conv) (simp add: run_eval)

section \<open>Refill after exhaustion\<close>




section \<open>The retry time\<close>

text \<open>
  Claim C5. A call is denied only when the key has a bucket whose refilled
  token count (lines 69-71, from the stored count and stamp) is below 1; the
  retry time it returns is the quotient of line 79, \<open>(1 - tokens) / REFILL_RATE\<close>
  in double arithmetic with that refilled count, rounded by \<open>py_round\<close>, and is
  not negative. The rounding is to the nearest integer, and a tie goes to the
  even one.
\<close>

theorem retry_after_rounding:
  assumes "\<not> fst (fst (check_rate_limit k t s))"
  shows "(\<exists>b. s k = Some b
            \<and> min MAX_TOKENS (fl (tokens b + fl (fl (t - last_refill b) * REFILL_RATE))) < 1
            \<and> snd (fst (check_rate_limit k t s)) =
                py_round (fl (fl (1 - min MAX_TOKENS
                    (fl (tokens b + fl (fl (t - last_refill b) * REFILL_RATE)))) / REFILL_RATE)))
       \<and> 0 \<le> snd (fst (check_rate_limit k t s))
       \<and> \<bar>of_int (py_round x) - x\<bar> \<le> 1 / 2
       \<and> (\<bar>of_int (py_round x) - x\<bar> = 1 / 2 \<longrightarrow> even (py_round x))"
proof -
  from denied_key_present [OF assms]
  obtain b where b: "s k = Some b" "lookup_bucket k t s = b"
    by auto
  have lt: "tokens (refilled b t) < 1"
    using assms b by (simp add: check_admitted_iff)
  have r: "snd (fst (check_rate_limit k t s)) =
      py_round (fl (fl (1 - tokens (refilled b t)) / REFILL_RATE))"
    using retry_denied [OF assms] b by simp
  have "0 \<le> py_round (fl (fl (1 - tokens (refilled b t)) / REFILL_RATE))"
    using lt by (intro py_round_nonneg retry_arg_nonneg)
  with r have nn: "0 \<le> snd (fst (check_rate_limit k t s))"
    by simp
  from b(1) lt r have "\<exists>b. s k = Some b
            \<and> min MAX_TOKENS (fl (tokens b + fl (fl (t - last_refill b) * REFILL_RATE))) < 1
            \<and> snd (fst (check_rate_limit k t s)) =
                py_round (fl (fl (1 - min MAX_TOKENS
                    (fl (tokens b + fl (fl (t - last_refill b) * REFILL_RATE)))) / REFILL_RATE))"
    unfolding tokens_refilled by blast
  with nn show ?thesis
    using py_round_nearest [of x] py_round_tie_even [of x] by blast
qed

theorem retry_after_rounding_witness:
  "\<not> fst (fst (check_rate_limit ''u:1'' 101 [''u:1'' \<mapsto> \<lparr>tokens = 0, last_refill = 100\<rparr>]))
   \<and> min MAX_TOKENS (fl (0 + fl (fl (101 - 100) * REFILL_RATE))) = 3077459745369839 / 4503599627370496
   \<and> snd (fst (check_rate_limit ''u:1'' 101 [''u:1'' \<mapsto> \<lparr>tokens = 0, last_refill = 100\<rparr>])) = 0
   \<and> py_round (fl (fl (1 - 0) / REFILL_RATE)) = 1
   \<and> \<bar>of_int (py_round (5 / 2)) - (5 / 2 :: rat)\<bar> = 1 / 2
   \<and> even (py_round (5 / 2))"
proof -
  note inst = retry_after_rounding [OF denied_one_second, of "5 / 2"]
  have tie: "py_round (5 / 2) = 2"
    by (simp add: py_round_def Let_def floor_rat_numeral)
  from inst obtain b where b: "[''u:1'' \<mapsto> \<lparr>tokens = 0, last_refill = 100\<rparr>] ''u:1'' = Some b"
    and r: "snd (fst (check_rate_limit ''u:1'' 101 [''u:1'' \<mapsto> \<lparr>tokens = 0, last_refill = 100\<rparr>])) =
        py_round (fl (fl (1 - min MAX_TOKENS
          (fl (tokens b + fl (fl (101 - last_refill b) * REFILL_RATE)))) / REFILL_RATE))"
    by blast
  from b have beq: "b = \<lparr>tokens = 0, last_refill = 100\<rparr>"
    by simp
  have zero: "snd (fst (check_rate_limit ''u:1'' 101 [''u:1'' \<mapsto> \<lparr>tokens = 0, last_refill = 100\<rparr>])) = 0"
    using r unfolding beq
    by (simp only: bucket.select_convs refill_one_second retry_one_second)
  from inst tie have ev: "even (py_round (5 / 2))"
    by simp
  have dist: "\<bar>of_int (py_round (5 / 2)) - (5 / 2 :: rat)\<bar> = 1 / 2"
    by (simp add: tie)
  from denied_one_second refill_one_second zero retry_same_instant dist ev show ?thesis
    by blast
qed

text \<open>
  Claim C6. From one store, when the calls at two times \<open>now1 \<le> now2\<close> would
  both be denied, the retry time at \<open>now2\<close> is at most the one at \<open>now1\<close>,
  and neither is negative.
\<close>

theorem retry_after_antitone:
  assumes "now1 \<le> now2"
    and d1: "\<not> fst (fst (check_rate_limit k now1 s))"
    and d2: "\<not> fst (fst (check_rate_limit k now2 s))"
  shows "snd (fst (check_rate_limit k now2 s)) \<le> snd (fst (check_rate_limit k now1 s))
       \<and> 0 \<le> snd (fst (check_rate_limit k now2 s))
       \<and> 0 \<le> snd (fst (check_rate_limit k now1 s))"
proof -
  from denied_key_present [OF d1]
  obtain b where b: "lookup_bucket k now1 s = b" "lookup_bucket k now2 s = b"
    by auto
  have "tokens (refilled b now1) \<le> tokens (refilled b now2)"
    using assms(1) by (rule tokens_refilled_mono)
  then have "fl (fl (1 - tokens (refilled b now2)) / REFILL_RATE)
           \<le> fl (fl (1 - tokens (refilled b now1)) / REFILL_RATE)"
    by (rule retry_arg_antimono)
  then have le: "py_round (fl (fl (1 - tokens (refilled b now2)) / REFILL_RATE))
           \<le> py_round (fl (fl (1 - tokens (refilled b now1)) / REFILL_RATE))"
    by (rule py_round_mono)
  have "tokens (refilled b now1) < 1" "tokens (refilled b now2) < 1"
    using d1 d2 b by (simp_all add: check_admitted_iff)
  then have "0 \<le> py_round (fl (fl (1 - tokens (refilled b now1)) / REFILL_RATE))"
            "0 \<le> py_round (fl (fl (1 - tokens (refilled b now2)) / REFILL_RATE))"
    by (simp_all add: py_round_nonneg retry_arg_nonneg)
  with le show ?thesis
    using retry_denied [OF d1] retry_denied [OF d2] b by simp
qed

theorem retry_after_antitone_witness:
  "(100 :: rat) \<le> 101
   \<and> \<not> fst (fst (check_rate_limit ''u:1'' 100 [''u:1'' \<mapsto> \<lparr>tokens = 0, last_refill = 100\<rparr>]))
   \<and> \<not> fst (fst (check_rate_limit ''u:1'' 101 [''u:1'' \<mapsto> \<lparr>tokens = 0, last_refill = 100\<rparr>]))
   \<and> snd (fst (check_rate_limit ''u:1'' 101 [''u:1'' \<mapsto> \<lparr>tokens = 0, last_refill = 100\<rparr>])) \<le> snd (fst (check_rate_limit ''u:1'' 100 [''u:1'' \<mapsto> \<lparr>tokens = 0, last_refill = 100\<rparr>]))"
proof -
  have le: "(100 :: rat) \<le> 101"
    by simp
  from retry_after_antitone [OF le denied_same_instant denied_one_second]
    denied_same_instant denied_one_second
  show ?thesis
    by simp
qed

section \<open>The clock\<close>

text \<open>
  Claim C7, amended. Starting from the empty store, when the clock readings of a
  sequence of calls never decrease, the elapsed time computed on line 69 is not
  negative on any call of the sequence, and no call lowers the time stamp of any
  bucket. The code reads the wall clock (line 58), so this is a condition on
  the readings and not a property of the code.
\<close>

theorem clock_amended:
  assumes "sorted (map snd calls)" "n < length calls"
  shows "0 \<le> elapsed_of (lookup_bucket (fst (calls ! n)) (snd (calls ! n))
                  (snd (run_calls (take n calls) Map.empty))) (snd (calls ! n))
       \<and> (\<forall>k b. snd (run_calls (take n calls) Map.empty) k = Some b \<longrightarrow>
             (\<exists>b'. snd (run_calls (take (Suc n) calls) Map.empty) k = Some b'
                  \<and> last_refill b \<le> last_refill b'))"
proof -
  define s where "s = snd (run_calls (take n calls) Map.empty)"
  define key where "key = fst (calls ! n)"
  define now where "now = snd (calls ! n)"
  have step: "snd (run_calls (take (Suc n) calls) Map.empty) = snd (check_rate_limit key now s)"
    using assms(2) by (simp add: take_Suc_conv_app_nth snd_run_calls_snoc s_def key_def now_def)
  have "sorted (map snd (take n calls))"
    using assms(1) by (rule sorted_prefix)
  then have ok: "\<forall>k b. s k = Some b \<longrightarrow> bucket_ok (last (0 # map snd (take n calls))) b"
    unfolding s_def by (rule run_from_empty_ok)
  have bound: "last_refill b \<le> now" if "s k = Some b" for k b
  proof (cases "n = 0")
    case True
    with that show ?thesis by (simp add: s_def)
  next
    case False
    with assms(2) have "map snd (take n calls) \<noteq> []"
      by auto
    then have "last (0 # map snd (take n calls)) = last (take n (map snd calls))"
      by (simp add: take_map)
    also have "\<dots> \<le> map snd calls ! n"
      using assms False by (intro sorted_take_le_nth) simp_all
    finally have "last (0 # map snd (take n calls)) \<le> now"
      using assms(2) by (simp add: now_def)
    moreover from ok that have "last_refill b \<le> last (0 # map snd (take n calls))"
      by (simp add: bucket_ok_def)
    ultimately show ?thesis by simp
  qed
  have el: "0 \<le> elapsed_of (lookup_bucket key now s) now"
  proof (cases "s key")
    case None
    then show ?thesis by (simp add: lookup_bucket_def elapsed_of_def fl_0)
  next
    case (Some b)
    with bound [of key b] show ?thesis by (simp add: lookup_bucket_def elapsed_of_def fl_nonneg)
  qed
  have mono: "\<exists>b'. snd (check_rate_limit key now s) k = Some b' \<and> last_refill b \<le> last_refill b'"
    if "s k = Some b" for k b
  proof (cases "k = key")
    case True
    have "\<exists>b'. snd (check_rate_limit key now s) key = Some b' \<and> last_refill b' = now"
      by (simp add: check_rate_limit_def Let_def last_refill_refilled)
    with True bound [OF that] show ?thesis by auto
  next
    case False
    with that show ?thesis by (simp add: check_store_other)
  qed
  show ?thesis
    using el mono unfolding step by (simp add: s_def key_def now_def)
qed

theorem clock_amended_witness:
  "sorted (map snd [(''u:1'', 100 :: rat), (''u:1'', 103)])
   \<and> (1 :: nat) < length [(''u:1'', 100 :: rat), (''u:1'', 103)]
   \<and> 0 \<le> elapsed_of (lookup_bucket ''u:1'' 103
            (snd (run_calls (take 1 [(''u:1'', 100), (''u:1'', 103)]) Map.empty))) 103"
  using clock_amended [of "[(''u:1'', 100), (''u:1'', 103)]" 1]
  by simp

text \<open>The claim as first stated fails on two calls whose second clock reading is
  100 seconds before the first: the elapsed time is \<open>- 100\<close> and the time
  stamp of the bucket goes back.\<close>

theorem clock_counterexample:
  "snd (check_rate_limit ''u:1'' 1700000100 Map.empty) ''u:1''
     = Some \<lparr>tokens = 8, last_refill = 1700000100\<rparr>
   \<and> elapsed_of (lookup_bucket ''u:1'' 1700000000
          (snd (check_rate_limit ''u:1'' 1700000100 Map.empty))) 1700000000 = - 100
   \<and> snd (check_rate_limit ''u:1'' 1700000000
          (snd (check_rate_limit ''u:1'' 1700000100 Map.empty))) ''u:1''
     = Some \<lparr>tokens = - 4245580898719061 / 70368744177664, last_refill = 1700000000\<rparr>"
  by (simp add: run_eval elapsed_of_def)

section \<open>Keys do not interfere\<close>

text \<open>
  Claim C8. A call for key \<open>A\<close> leaves what the store holds for any other key
  \<open>B\<close> as it was, and a later call for \<open>B\<close> returns the same result and
  stores the same bucket as it would have without the call for \<open>A\<close>.
\<close>

theorem per_key_independence:
  assumes "A \<noteq> B"
  shows "snd (check_rate_limit A t s) B = s B
       \<and> fst (check_rate_limit B t' (snd (check_rate_limit A t s))) = fst (check_rate_limit B t' s)
       \<and> snd (check_rate_limit B t' (snd (check_rate_limit A t s))) B = snd (check_rate_limit B t' s) B"
proof -
  have same: "snd (check_rate_limit A t s) B = s B"
    using assms by (simp add: check_store_other)
  then have "lookup_bucket B t' (snd (check_rate_limit A t s)) = lookup_bucket B t' s"
    by (simp add: lookup_bucket_def)
  then show ?thesis
    using same by (simp add: check_rate_limit_def Let_def)
qed

theorem per_key_independence_witness:
  "''a:1'' \<noteq> ''b:2''
   \<and> snd (check_rate_limit ''a:1'' 105 [''b:2'' \<mapsto> \<lparr>tokens = 3, last_refill = 100\<rparr>]) ''b:2''
       = [''b:2'' \<mapsto> \<lparr>tokens = 3, last_refill = 100\<rparr>] ''b:2''
   \<and> fst (check_rate_limit ''b:2'' 106
         (snd (check_rate_limit ''a:1'' 105 [''b:2'' \<mapsto> \<lparr>tokens = 3, last_refill = 100\<rparr>])))
       = fst (check_rate_limit ''b:2'' 106 [''b:2'' \<mapsto> \<lparr>tokens = 3, last_refill = 100\<rparr>])"
  using per_key_independence [of "''a:1''" "''b:2''" 105
      "[''b:2'' \<mapsto> \<lparr>tokens = 3, last_refill = 100\<rparr>]" 106]
  by simp

section \<open>What a denied call writes\<close>

text \<open>
  Claim C9. A denied call changes the store: the key had a bucket, and after the
  call that bucket holds the refilled, clamped token count of lines 69-71 and
  the time of the call as its stamp; only the subtraction of one token is left
  out. There are denied calls after which the store differs from the one before.
\<close>

theorem denied_call_updates_bucket:
  assumes "\<not> fst (fst (check_rate_limit k t s))"
  shows "(\<exists>b. s k = Some b \<and>
           snd (check_rate_limit k t s) k =
             Some \<lparr>tokens = min MAX_TOKENS
                               (fl (tokens b + fl (fl (t - last_refill b) * REFILL_RATE))),
                   last_refill = t\<rparr>)
       \<and> (\<exists>k' t' s'. \<not> fst (fst (check_rate_limit k' t' s'))
              \<and> snd (check_rate_limit k' t' s') \<noteq> s')"
proof -
  from denied_key_present [OF assms]
  obtain b where b: "s k = Some b" "lookup_bucket k t s = b"
    by auto
  have "snd (check_rate_limit k t s) k = Some (refilled b t)"
    using assms b check_store_denied [of k t s] by (simp add: check_admitted_iff)
  then have upd: "\<exists>b. s k = Some b \<and>
           snd (check_rate_limit k t s) k =
             Some \<lparr>tokens = min MAX_TOKENS
                               (fl (tokens b + fl (fl (t - last_refill b) * REFILL_RATE))),
                   last_refill = t\<rparr>"
    using b by (simp add: refilled_def elapsed_of_def Let_def)
  have "snd (check_rate_limit ''u:1'' 101 [''u:1'' \<mapsto> \<lparr>tokens = 0, last_refill = 100\<rparr>]) ''u:1'' = Some (refilled (lookup_bucket ''u:1'' 101 [''u:1'' \<mapsto> \<lparr>tokens = 0, last_refill = 100\<rparr>]) 101)"
    using denied_one_second by (simp add: check_admitted_iff check_store_denied)
  then have "snd (check_rate_limit ''u:1'' 101 [''u:1'' \<mapsto> \<lparr>tokens = 0, last_refill = 100\<rparr>]) ''u:1'' \<noteq> [''u:1'' \<mapsto> \<lparr>tokens = 0, last_refill = 100\<rparr>] ''u:1''"
    using last_refill_refilled [of "lookup_bucket ''u:1'' 101 [''u:1'' \<mapsto> \<lparr>tokens = 0, last_refill = 100\<rparr>]" 101]
    by (auto simp del: last_refill_refilled)
  then have "snd (check_rate_limit ''u:1'' 101 [''u:1'' \<mapsto> \<lparr>tokens = 0, last_refill = 100\<rparr>]) \<noteq> [''u:1'' \<mapsto> \<lparr>tokens = 0, last_refill = 100\<rparr>]"
    by metis
  with denied_one_second upd show ?thesis
    by blast
qed

theorem denied_call_updates_bucket_witness:
  "\<not> fst (fst (check_rate_limit ''u:1'' 101 [''u:1'' \<mapsto> \<lparr>tokens = 0, last_refill = 100\<rparr>]))
   \<and> snd (check_rate_limit ''u:1'' 101 [''u:1'' \<mapsto> \<lparr>tokens = 0, last_refill = 100\<rparr>]) ''u:1''
       = Some \<lparr>tokens = 3077459745369839 / 4503599627370496, last_refill = 101\<rparr>"
proof -
  from denied_call_updates_bucket [OF denied_one_second]
  obtain b where b: "[''u:1'' \<mapsto> \<lparr>tokens = 0, last_refill = 100\<rparr>] ''u:1'' = Some b"
    and r: "snd (check_rate_limit ''u:1'' 101 [''u:1'' \<mapsto> \<lparr>tokens = 0, last_refill = 100\<rparr>]) ''u:1'' =
        Some \<lparr>tokens = min MAX_TOKENS
                          (fl (tokens b + fl (fl (101 - last_refill b) * REFILL_RATE))),
              last_refill = 101\<rparr>"
    by blast
  from b have beq: "b = \<lparr>tokens = 0, last_refill = 100\<rparr>"
    by simp
  have "snd (check_rate_limit ''u:1'' 101 [''u:1'' \<mapsto> \<lparr>tokens = 0, last_refill = 100\<rparr>]) ''u:1''
       = Some \<lparr>tokens = 3077459745369839 / 4503599627370496, last_refill = 101\<rparr>"
    using r unfolding beq
    by (simp only: bucket.select_convs refill_one_second)
  with denied_one_second show ?thesis
    by blast
qed

section \<open>A denial with a retry time of zero\<close>

text \<open>
  Claim C10. There are denied calls that return the retry time 0. A denied call
  does so exactly when the quotient of line 79, computed in double arithmetic
  from the refilled token count, is at most one half; this is the case whenever
  the refilled count is at least 0.6583333333333333 (and below 1, as the call is
  denied). The endpoint then answers 429 with the \<^verbatim>\<open>Retry-After\<close> header
  \<^verbatim>\<open>0\<close>.
\<close>

theorem denial_with_zero_retry:
  assumes "\<not> fst (fst (check_rate_limit k t s))"
  shows "(snd (fst (check_rate_limit k t s)) = 0
            \<longleftrightarrow> fl (fl (1 - tokens (refilled (lookup_bucket k t s) t)) / REFILL_RATE) \<le> 1 / 2)
       \<and> (5929739509371153 / 9007199254740992 \<le> tokens (refilled (lookup_bucket k t s) t)
            \<longrightarrow> snd (fst (check_rate_limit k t s)) = 0)
       \<and> (snd (fst (check_rate_limit k t s)) = 0 \<and> k = userId @ '':'' @ client_ip
            \<longrightarrow> fst (validate userId input ''Rate Limiting'' (Some client_ip) t s)
                  = JSONResponse429 ''0'')
       \<and> (\<exists>k' t' s'. fst (check_rate_limit k' t' s') = (False, 0))"
proof -
  have lt: "tokens (refilled (lookup_bucket k t s) t) < 1"
    using assms by (simp add: check_admitted_iff)
  have zero: "snd (fst (check_rate_limit k t s)) = 0
            \<longleftrightarrow> fl (fl (1 - tokens (refilled (lookup_bucket k t s) t)) / REFILL_RATE) \<le> 1 / 2"
    using retry_denied [OF assms] retry_zero_iff [OF lt] by simp
  have near: "snd (fst (check_rate_limit k t s)) = 0"
    if "5929739509371153 / 9007199254740992 \<le> tokens (refilled (lookup_bucket k t s) t)"
  proof -
    from that have "fl (fl (1 - tokens (refilled (lookup_bucket k t s) t)) / REFILL_RATE)
        \<le> fl (fl (1 - 5929739509371153 / 9007199254740992) / REFILL_RATE)"
      by (rule retry_arg_antimono)
    also have "\<dots> = 1 / 2" by (rule retry_at_threshold)
    finally show ?thesis by (rule zero [THEN iffD2])
  qed
  have hdr: "fst (validate userId input ''Rate Limiting'' (Some client_ip) t s) = JSONResponse429 ''0''"
    if "snd (fst (check_rate_limit k t s)) = 0" "k = userId @ '':'' @ client_ip"
    using that assms validate_denied [of userId client_ip t s input]
    by (simp add: str_int_def)
  have "snd (fst (check_rate_limit ''u:1'' 101 [''u:1'' \<mapsto> \<lparr>tokens = 0, last_refill = 100\<rparr>])) = 0"
    using retry_denied [OF denied_one_second]
    by (simp only: tokens_one_second retry_one_second)
  with denied_one_second have "fst (check_rate_limit ''u:1'' 101 [''u:1'' \<mapsto> \<lparr>tokens = 0, last_refill = 100\<rparr>]) = (False, 0)"
    by (intro prod_eqI) simp_all
  then have "\<exists>k' t' s'. fst (check_rate_limit k' t' s') = (False, 0)"
    by blast
  with zero near hdr show ?thesis
    by blast
qed

theorem denial_with_zero_retry_witness:
  "\<not> fst (fst (check_rate_limit ''u:1'' 101 [''u:1'' \<mapsto> \<lparr>tokens = 0, last_refill = 100\<rparr>]))
   \<and> 5929739509371153 / 9007199254740992 \<le> tokens (refilled (lookup_bucket ''u:1'' 101 [''u:1'' \<mapsto> \<lparr>tokens = 0, last_refill = 100\<rparr>]) 101)
   \<and> fst (check_rate_limit ''u:1'' 101 [''u:1'' \<mapsto> \<lparr>tokens = 0, last_refill = 100\<rparr>]) = (False, 0)
   \<and> fst (validate ''u'' ''hello'' ''Rate Limiting'' (Some ''1'') 101 [''u:1'' \<mapsto> \<lparr>tokens = 0, last_refill = 100\<rparr>]) = JSONResponse429 ''0''"
proof -
  have tok: "5929739509371153 / 9007199254740992 \<le> tokens (refilled (lookup_bucket ''u:1'' 101 [''u:1'' \<mapsto> \<lparr>tokens = 0, last_refill = 100\<rparr>]) 101)"
    by (simp add: tokens_one_second)
  have key: "''u:1'' = ''u'' @ '':'' @ ''1''"
    by simp
  note inst = denial_with_zero_retry [OF denied_one_second, where userId = "''u''"
      and client_ip = "''1''" and input = "''hello''"]
  from inst tok have z: "snd (fst (check_rate_limit ''u:1'' 101 [''u:1'' \<mapsto> \<lparr>tokens = 0, last_refill = 100\<rparr>])) = 0"
    by blast
  from inst z key
  have h: "fst (validate ''u'' ''hello'' ''Rate Limiting'' (Some ''1'') 101 [''u:1'' \<mapsto> \<lparr>tokens = 0, last_refill = 100\<rparr>]) = JSONResponse429 ''0''"
    by blast
  from denied_one_second z have "fst (check_rate_limit ''u:1'' 101 [''u:1'' \<mapsto> \<lparr>tokens = 0, last_refill = 100\<rparr>]) = (False, 0)"
    by (intro prod_eqI) simp_all
  with denied_one_second tok h show ?thesis
    by blast
qed

end
